theory Spec2Isabelle
  imports Main "HOL-Library.List_Lexorder" "HOL-Library.Product_Lexorder" "HOL-Library.Multiset"
begin

section \<open>Word frequencies of a subtitle file: the model of \<open>word_frequency.py\<close>\<close>

text \<open>
  The program reads an SRT or ASS subtitle file line by line, keeps the dialogue text,
  normalizes each line (bidi marks deleted, lowercased, punctuation blanked), splits it on
  whitespace, counts the words in a \<open>Counter\<close> and writes the counts sorted by frequency.

  A Python \<open>str\<close> is a sequence of Unicode code points, modelled as a list of naturals.
  The character tables of the Python runtime (which code points are whitespace, alphanumeric,
  digits, how a code point lowercases) are not part of the program: every function that
  consults them takes them as the parameter \<open>U\<close>.
\<close>

subsection \<open>Strings\<close>

type_synonym str = "nat list"

definition ustr :: "string \<Rightarrow> str" where
  \<comment> \<open>A literal of the source, as its code points.\<close>
  "ustr = map of_char"

record ucd =
  isspace :: "nat \<Rightarrow> bool"  \<comment> \<open>\<open>str.isspace\<close> of one character; also \<open>\<bsol>s\<close> of \<open>re\<close>\<close>
  isalnum :: "nat \<Rightarrow> bool"  \<comment> \<open>\<open>str.isalnum\<close> of one character\<close>
  isdecimal :: "nat \<Rightarrow> bool"  \<comment> \<open>\<open>str.isdecimal\<close> of one character; \<open>\<bsol>d\<close> of \<open>re\<close>\<close>
  isdigit :: "nat \<Rightarrow> bool"  \<comment> \<open>\<open>str.isdigit\<close> of one character\<close>
  tolower_full :: "nat \<Rightarrow> nat list"  \<comment> \<open>the full lowercase mapping of one character\<close>
  iscased :: "nat \<Rightarrow> bool"  \<comment> \<open>the property Cased\<close>
  iscase_ignorable :: "nat \<Rightarrow> bool"  \<comment> \<open>the property Case_Ignorable\<close>

definition startswith :: "str \<Rightarrow> str \<Rightarrow> bool" where
  "startswith s p = (take (length p) s = p)"

definition str_lstrip :: "ucd \<Rightarrow> str \<Rightarrow> str" where
  "str_lstrip U s = dropWhile (isspace U) s"

definition str_strip :: "ucd \<Rightarrow> str \<Rightarrow> str" where
  "str_strip U s = rev (dropWhile (isspace U) (rev (dropWhile (isspace U) s)))"

definition str_isdigit :: "ucd \<Rightarrow> str \<Rightarrow> bool" where
  \<comment> \<open>\<open>s.isdigit()\<close>: at least one character, and all of them digits.\<close>
  "str_isdigit U s = (s \<noteq> [] \<and> list_all (isdigit U) s)"

text \<open>
  \<open>s.split(sep, maxsplit)\<close> for a one-character separator. A negative \<open>maxsplit\<close> (Python's
  default is \<open>-1\<close>) never reaches zero, so it puts no limit on the number of splits.
\<close>

fun split_acc :: "nat \<Rightarrow> int \<Rightarrow> str \<Rightarrow> str \<Rightarrow> str list" where
  "split_acc sep maxsplit cur [] = [cur]"
| "split_acc sep maxsplit cur (c # cs) =
     (if c = sep \<and> maxsplit \<noteq> 0 then cur # split_acc sep (maxsplit - 1) [] cs
      else split_acc sep maxsplit (cur @ [c]) cs)"

definition split_sep :: "str \<Rightarrow> nat \<Rightarrow> int \<Rightarrow> str list" where
  "split_sep s sep maxsplit = split_acc sep maxsplit [] s"

text \<open>\<open>s.split()\<close>: the maximal runs of characters that are not whitespace.\<close>

fun split_ws_acc :: "ucd \<Rightarrow> str \<Rightarrow> str \<Rightarrow> str list" where
  "split_ws_acc U cur [] = (if cur = [] then [] else [cur])"
| "split_ws_acc U cur (c # cs) =
     (if isspace U c then (if cur = [] then [] else [cur]) @ split_ws_acc U [] cs
      else split_ws_acc U (cur @ [c]) cs)"

definition split_ws :: "ucd \<Rightarrow> str \<Rightarrow> str list" where
  "split_ws U s = split_ws_acc U [] s"

text \<open>
  \<open>s.replace(old, new)\<close> for a two-character \<open>old = [a, b]\<close>, the only use the program makes
  of it: occurrences are replaced from the left and do not overlap.
\<close>

fun str_replace2 :: "nat \<Rightarrow> nat \<Rightarrow> str \<Rightarrow> str \<Rightarrow> str" where
  "str_replace2 a b new (x # y # cs) =
     (if x = a \<and> y = b then new @ str_replace2 a b new cs
      else x # str_replace2 a b new (y # cs))"
| "str_replace2 a b new cs = cs"

text \<open>
  \<open>s.lower()\<close>: each character is replaced by its full lowercase mapping, except the capital
  sigma U+03A3, which becomes the final sigma U+03C2 when a cased character precedes it and
  none follows it (case-ignorable characters skipped on both sides), and U+03C3 otherwise.
  \<open>seen\<close> is the text already passed, nearest character first.
\<close>

definition final_sigma :: "ucd \<Rightarrow> str \<Rightarrow> str \<Rightarrow> bool" where
  "final_sigma U seen after =
     (case dropWhile (iscase_ignorable U) seen of
        [] \<Rightarrow> False
      | c # _ \<Rightarrow> iscased U c \<and>
          (case dropWhile (iscase_ignorable U) after of
             [] \<Rightarrow> True
           | d # _ \<Rightarrow> \<not> iscased U d))"

fun lower_from :: "ucd \<Rightarrow> str \<Rightarrow> str \<Rightarrow> str" where
  "lower_from U seen [] = []"
| "lower_from U seen (c # cs) =
     (if c = 0x3A3 then [if final_sigma U seen cs then 0x3C2 else 0x3C3]
      else tolower_full U c) @ lower_from U (c # seen) cs"

definition str_lower :: "ucd \<Rightarrow> str \<Rightarrow> str" where
  "str_lower U s = lower_from U [] s"

subsection \<open>The normalizer\<close>

definition BIDI_MARKS :: "nat list" where
  \<comment> \<open>The keys of the translation table; each is mapped to the empty string.\<close>
  "BIDI_MARKS = [0x200E, 0x200F, 0x202A, 0x202B, 0x202C, 0x202D, 0x202E, 0xFEFF]"

definition translate_delete :: "nat list \<Rightarrow> str \<Rightarrow> str" where
  \<comment> \<open>\<open>s.translate(table)\<close> for a table that maps each of its keys to the empty string.\<close>
  "translate_delete keys s = filter (\<lambda>c. c \<notin> set keys) s"

definition re_word :: "ucd \<Rightarrow> nat \<Rightarrow> bool" where
  \<comment> \<open>The class \<open>\<bsol>w\<close> of \<open>re\<close> on \<open>str\<close> patterns: alphanumeric, or the underscore.\<close>
  "re_word U c = (isalnum U c \<or> c = 0x5F)"

definition PUNCT_RE_sub :: "ucd \<Rightarrow> str \<Rightarrow> str \<Rightarrow> str" where
  \<comment> \<open>\<open>PUNCT_RE.sub(repl, s)\<close>: the pattern is the one-character class \<open>[^\<bsol>w\<bsol>s]\<close>.\<close>
  "PUNCT_RE_sub U repl s =
     concat (map (\<lambda>c. if \<not> re_word U c \<and> \<not> isspace U c then repl else [c]) s)"

definition normalize_line :: "ucd \<Rightarrow> str \<Rightarrow> str" where
  "normalize_line U line =
     (let cleaned = str_lower U (translate_delete BIDI_MARKS line);
          cleaned = PUNCT_RE_sub U (ustr '' '') cleaned
      in cleaned)"

subsection \<open>The SRT parser\<close>

text \<open>
  A regular expression is matched in continuation-passing style: a matcher takes what has
  to hold of the rest of the string, and a pattern is the composition of the matchers of
  its parts, in their order. \<open>re_plus\<close> tries every number of repetitions, which is all
  that matters for whether a match exists.
\<close>

fun re_class :: "(nat \<Rightarrow> bool) \<Rightarrow> (str \<Rightarrow> bool) \<Rightarrow> str \<Rightarrow> bool" where
  "re_class p k [] = False"
| "re_class p k (c # cs) = (p c \<and> k cs)"

fun re_plus :: "(nat \<Rightarrow> bool) \<Rightarrow> (str \<Rightarrow> bool) \<Rightarrow> str \<Rightarrow> bool" where
  "re_plus p k [] = False"
| "re_plus p k (c # cs) = (p c \<and> (re_plus p k cs \<or> k cs))"

definition re_char :: "char \<Rightarrow> (str \<Rightarrow> bool) \<Rightarrow> str \<Rightarrow> bool" where
  "re_char x = re_class (\<lambda>c. c = of_char x)"

definition re_digits :: "ucd \<Rightarrow> nat \<Rightarrow> (str \<Rightarrow> bool) \<Rightarrow> str \<Rightarrow> bool" where
  \<comment> \<open>\<open>\<bsol>d{n}\<close>: exactly \<open>n\<close> decimal digits\<close>
  "re_digits U n = re_class (isdecimal U) ^^ n"

definition re_clock :: "ucd \<Rightarrow> (str \<Rightarrow> bool) \<Rightarrow> str \<Rightarrow> bool" where
  \<comment> \<open>\<open>\<bsol>d{2}:\<bsol>d{2}:\<bsol>d{2},\<bsol>d{3}\<close>\<close>
  "re_clock U =
     re_digits U 2 \<circ> re_char CHR '':'' \<circ> re_digits U 2 \<circ> re_char CHR '':'' \<circ>
     re_digits U 2 \<circ> re_char CHR '','' \<circ> re_digits U 3"

definition TIME_CODE_RE :: "ucd \<Rightarrow> (str \<Rightarrow> bool) \<Rightarrow> str \<Rightarrow> bool" where
  \<comment> \<open>A clock, whitespace, the arrow, whitespace, a clock. The \<open>^\<close> of the pattern is the
      start of the string, where matching begins.\<close>
  "TIME_CODE_RE U =
     re_clock U \<circ> re_plus (isspace U) \<circ>
     re_char CHR ''-'' \<circ> re_char CHR ''-'' \<circ> re_char CHR ''>'' \<circ>
     re_plus (isspace U) \<circ> re_clock U"

definition TIME_CODE_RE_match :: "ucd \<Rightarrow> str \<Rightarrow> bool" where
  \<comment> \<open>\<open>TIME_CODE_RE.match(line)\<close> is not \<open>None\<close>: \<open>match\<close> asks nothing of what follows
      the match.\<close>
  "TIME_CODE_RE_match U line = TIME_CODE_RE U (\<lambda>rest. True) line"

definition TIME_CODE_RE_fullmatch :: "ucd \<Rightarrow> str \<Rightarrow> bool" where
  \<comment> \<open>The whole string is a timing line: nothing follows the match. The program does not
      ask this; it is what a line matching the pattern in full means.\<close>
  "TIME_CODE_RE_fullmatch U line = TIME_CODE_RE U (\<lambda>rest. rest = []) line"

definition srt_step :: "ucd \<Rightarrow> str list \<Rightarrow> str \<Rightarrow> str list" where
  \<comment> \<open>One turn of the loop of \<open>iter_srt_lines\<close>, on the list collected so far.\<close>
  "srt_step U lines raw_line =
     (let line = str_strip U raw_line in
      if line = [] then lines
      else if str_isdigit U line then lines
      else if TIME_CODE_RE_match U line then lines
      else lines @ [line])"

definition iter_srt_lines :: "ucd \<Rightarrow> str list \<Rightarrow> str list" where
  \<comment> \<open>The file is given as the lines the file object yields.\<close>
  "iter_srt_lines U handle = foldl (srt_step U) [] handle"

subsection \<open>The ASS parser\<close>

text \<open>
  \<open>ASS_OVERRIDE_RE.sub("", text)\<close>: the pattern is an opening brace, \<open>.*?\<close> and a closing
  brace. The lazy \<open>.*?\<close> stops at the nearest closing brace, and \<open>.\<close> does not match a
  newline, so a match at an opening brace runs to the first closing brace after it when no
  newline comes before that brace, and there is no match at this opening brace otherwise.
  \<open>override_close\<close> gives what follows the match.
\<close>

fun override_close :: "str \<Rightarrow> str option" where
  "override_close [] = None"
| "override_close (c # cs) =
     (if c = of_char CHR ''}'' then Some cs
      else if c = 0x0A then None
      else override_close cs)"

function ASS_OVERRIDE_RE_sub :: "str \<Rightarrow> str \<Rightarrow> str" where
  "ASS_OVERRIDE_RE_sub repl [] = []"
| "ASS_OVERRIDE_RE_sub repl (c # cs) =
     (if c = of_char CHR ''{'' then
        (case override_close cs of
           Some rest \<Rightarrow> repl @ ASS_OVERRIDE_RE_sub repl rest
         | None \<Rightarrow> c # ASS_OVERRIDE_RE_sub repl cs)
      else c # ASS_OVERRIDE_RE_sub repl cs)"
  by pat_completeness auto
termination
proof (relation "measure (\<lambda>(repl, s). length s)")
  have shorter: "override_close cs = Some rest \<Longrightarrow> length rest < Suc (length cs)"
    for cs rest :: str
    by (induction cs) (auto split: if_splits)
  fix repl :: str and c :: nat and cs rest :: str
  assume "override_close cs = Some rest"
  then show "((repl, rest), (repl, c # cs)) \<in> measure (\<lambda>(repl, s). length s)"
    using shorter by simp
qed simp_all

record ass_state =
  lines :: "str list"
  text_index :: "nat option"  \<comment> \<open>\<open>None\<close> of the source is \<open>None\<close>\<close>
  field_count :: "nat option"

definition index_of :: "'a list \<Rightarrow> 'a \<Rightarrow> nat" where
  \<comment> \<open>\<open>xs.index(x)\<close>, asked only when \<open>x in xs\<close>.\<close>
  "index_of xs x = length (takeWhile (\<lambda>y. y \<noteq> x) xs)"

definition ass_text :: "str \<Rightarrow> str" where
  \<comment> \<open>Override tags removed, then \<open>\<bsol>N\<close>, \<open>\<bsol>n\<close> and \<open>\<bsol>h\<close> replaced by a space each, in this order.\<close>
  "ass_text text0 =
     (let text = ASS_OVERRIDE_RE_sub [] text0;
          text = str_replace2 0x5C (of_char CHR ''N'') (ustr '' '') text;
          text = str_replace2 0x5C (of_char CHR ''n'') (ustr '' '') text;
          text = str_replace2 0x5C (of_char CHR ''h'') (ustr '' '') text
      in text)"

definition ass_step :: "ucd \<Rightarrow> ass_state \<Rightarrow> str \<Rightarrow> ass_state" where
  \<comment> \<open>One turn of the loop of \<open>iter_ass_lines\<close>. \<open>if field_count:\<close> is false for \<open>None\<close>
      and for \<open>0\<close>. The subscript \<open>[1]\<close> follows a test that the line starts with a prefix
      holding the colon, and \<open>parts[-1]\<close> is the last of a list that is never empty.\<close>
  "ass_step U st raw_line =
     (let line = str_strip U raw_line in
      if line = [] then st
      else if startswith line (ustr ''Format:'') then
        (let fields = map (str_strip U)
                        (split_sep (split_sep line (of_char CHR '':'') 1 ! 1) (of_char CHR '','') (- 1));
             st = st\<lparr>field_count := Some (length fields)\<rparr>
         in if ustr ''Text'' \<in> set fields
            then st\<lparr>text_index := Some (index_of fields (ustr ''Text''))\<rparr>
            else st)
      else if startswith line (ustr ''Dialogue:'') then
        (let payload = str_lstrip U (split_sep line (of_char CHR '':'') 1 ! 1);
             text =
               (if field_count st \<noteq> None \<and> field_count st \<noteq> Some 0 then
                  (let parts = split_sep payload (of_char CHR '','') (int (the (field_count st)) - 1)
                   in if text_index st \<noteq> None \<and> the (text_index st) < length parts
                      then parts ! the (text_index st)
                      else last parts)
                else
                  (let parts = split_sep payload (of_char CHR '','') 9
                   in last parts))
         in st\<lparr>lines := lines st @ [ass_text text]\<rparr>)
      else st)"

definition iter_ass_lines :: "ucd \<Rightarrow> str list \<Rightarrow> str list" where
  "iter_ass_lines U handle =
     lines (foldl (ass_step U) \<lparr>lines = [], text_index = None, field_count = None\<rparr> handle)"

subsection \<open>Counting and export\<close>

text \<open>
  A \<open>Counter\<close> is a dictionary: its keys are distinct and keep the order in which they
  were first inserted, which is the order of \<open>counts.items()\<close>. \<open>counts[word] += 1\<close> reads
  0 for a missing key and then stores the key at the end.
\<close>

type_synonym counter = "(str \<times> int) list"

fun counter_incr :: "counter \<Rightarrow> str \<Rightarrow> counter" where
  "counter_incr [] word = [(word, 1)]"
| "counter_incr ((k, v) # kvs) word =
     (if k = word then (k, v + 1) # kvs else (k, v) # counter_incr kvs word)"

definition counter_get :: "counter \<Rightarrow> str \<Rightarrow> int" where
  \<comment> \<open>\<open>counts[word]\<close> read: 0 for a missing key.\<close>
  "counter_get counts w = (case map_of counts w of None \<Rightarrow> 0 | Some v \<Rightarrow> v)"

definition count_line :: "ucd \<Rightarrow> counter \<Rightarrow> str \<Rightarrow> counter" where
  \<comment> \<open>The body of the outer loop of \<open>count_words\<close>.\<close>
  "count_line U counts line =
     (let normalized = normalize_line U line
      in foldl counter_incr counts (split_ws U normalized))"

definition count_words :: "ucd \<Rightarrow> str list \<Rightarrow> counter" where
  \<comment> \<open>\<open>subtitle_lines\<close> is the parameter \<open>lines\<close> of the source.\<close>
  "count_words U subtitle_lines = foldl (count_line U) [] subtitle_lines"

definition sorted_items :: "counter \<Rightarrow> (str \<times> int) list" where
  \<comment> \<open>\<open>sorted(counts.items(), key=lambda item: (-item[1], item[0]))\<close>: a stable sort;
      tuples compare lexicographically and strings by code points.\<close>
  "sorted_items counts = sort_key (\<lambda>item. (- snd item, fst item)) counts"

definition write_csv :: "counter \<Rightarrow> (str \<times> int) list" where
  \<comment> \<open>The rows handed to \<open>writer.writerows\<close>, after the header row.\<close>
  "write_csv counts = sorted_items counts"

subsection \<open>Paths\<close>

text \<open>
  A \<open>Path\<close> is its anchor (empty for a relative path) and the components after it.
  The file system is read through \<open>exists\<close> and \<open>is_dir\<close> only.
\<close>

record path =
  anchor :: str
  parts :: "str list"

record filesystem =
  exists :: "path \<Rightarrow> bool"
  is_dir :: "path \<Rightarrow> bool"

datatype error = ValueError

definition name :: "path \<Rightarrow> str" where
  "name p = (if parts p = [] then [] else last (parts p))"

definition rfind :: "str \<Rightarrow> nat \<Rightarrow> nat option" where
  \<comment> \<open>\<open>s.rfind(c)\<close>, with \<open>None\<close> for \<open>-1\<close>.\<close>
  "rfind s c = (if c \<in> set s then Some (length s - 1 - index_of (rev s) c) else None)"

definition suffix :: "path \<Rightarrow> str" where
  "suffix p =
     (let nm = name p in
      case rfind nm (of_char CHR ''.'') of
        None \<Rightarrow> []
      | Some i \<Rightarrow> if 0 < i \<and> i < length nm - 1 then drop i nm else [])"

definition stem :: "path \<Rightarrow> str" where
  "stem p =
     (let nm = name p in
      case rfind nm (of_char CHR ''.'') of
        None \<Rightarrow> nm
      | Some i \<Rightarrow> if 0 < i \<and> i < length nm - 1 then take i nm else nm)"

definition with_name :: "path \<Rightarrow> str \<Rightarrow> error + path" where
  \<comment> \<open>For a new name that is one valid component, as the default name always is.\<close>
  "with_name p nm =
     (if name p = [] then Inl ValueError else Inr (p\<lparr>parts := butlast (parts p) @ [nm]\<rparr>))"

definition joinpath :: "path \<Rightarrow> str \<Rightarrow> path" where
  \<comment> \<open>\<open>p / nm\<close> for \<open>nm\<close> one relative component, as the default name always is.\<close>
  "joinpath p nm = p\<lparr>parts := parts p @ [nm]\<rparr>"

definition default_name :: "path \<Rightarrow> str" where
  "default_name input_path = stem input_path @ ustr ''_word_frequency.csv''"

definition build_output_path :: "ucd \<Rightarrow> filesystem \<Rightarrow> path \<Rightarrow> path option \<Rightarrow> error + path" where
  "build_output_path U fs input_path output =
     (case output of
        None \<Rightarrow> with_name input_path (default_name input_path)
      | Some out \<Rightarrow>
          if exists fs out \<and> is_dir fs out then Inr (joinpath out (default_name input_path))
          else if str_lower U (suffix out) = ustr ''.csv'' then Inr out
          else Inr (joinpath out (default_name input_path)))"

definition iter_subtitle_lines :: "ucd \<Rightarrow> path \<Rightarrow> str list \<Rightarrow> str list" where
  \<comment> \<open>The file at \<open>sub_path\<close> is given by the lines it holds.\<close>
  "iter_subtitle_lines U sub_path handle =
     (if str_lower U (suffix sub_path) = ustr ''.ass'' then iter_ass_lines U handle
      else iter_srt_lines U handle)"

subsection \<open>The character tables on Latin-1\<close>

text \<open>
  The tables of the Unicode character database (version 14, as Python 3.11 ships it) on the
  code points U+0000 to U+00FF, where they are small enough to write out. Beyond U+00FF
  this table knows no character: nothing there is whitespace, alphanumeric or cased, and
  lowercasing changes nothing. It is used to run the program on texts within this range.
\<close>

definition ucd_latin1 :: ucd where
  "ucd_latin1 = \<lparr>
     isspace = (\<lambda>c. (0x09 \<le> c \<and> c \<le> 0x0D) \<or> (0x1C \<le> c \<and> c \<le> 0x20) \<or> c = 0x85 \<or> c = 0xA0),
     isalnum = (\<lambda>c. (0x30 \<le> c \<and> c \<le> 0x39) \<or> (0x41 \<le> c \<and> c \<le> 0x5A) \<or> (0x61 \<le> c \<and> c \<le> 0x7A)
                 \<or> c = 0xAA \<or> c = 0xB2 \<or> c = 0xB3 \<or> c = 0xB5 \<or> c = 0xB9 \<or> c = 0xBA
                 \<or> (0xBC \<le> c \<and> c \<le> 0xBE) \<or> (0xC0 \<le> c \<and> c \<le> 0xD6)
                 \<or> (0xD8 \<le> c \<and> c \<le> 0xF6) \<or> (0xF8 \<le> c \<and> c \<le> 0xFF)),
     isdecimal = (\<lambda>c. 0x30 \<le> c \<and> c \<le> 0x39),
     isdigit = (\<lambda>c. (0x30 \<le> c \<and> c \<le> 0x39) \<or> c = 0xB2 \<or> c = 0xB3 \<or> c = 0xB9),
     tolower_full = (\<lambda>c. if (0x41 \<le> c \<and> c \<le> 0x5A) \<or> (0xC0 \<le> c \<and> c \<le> 0xD6) \<or> (0xD8 \<le> c \<and> c \<le> 0xDE)
                          then [c + 0x20] else [c]),
     iscased = (\<lambda>c. (0x41 \<le> c \<and> c \<le> 0x5A) \<or> (0x61 \<le> c \<and> c \<le> 0x7A) \<or> c = 0xAA \<or> c = 0xB5
                 \<or> c = 0xBA \<or> (0xC0 \<le> c \<and> c \<le> 0xD6) \<or> (0xD8 \<le> c \<and> c \<le> 0xF6)
                 \<or> (0xF8 \<le> c \<and> c \<le> 0xFF)),
     iscase_ignorable = (\<lambda>c. c = 0x27 \<or> c = 0x2E \<or> c = 0x3A \<or> c = 0x5E \<or> c = 0x60 \<or> c = 0xA8
                 \<or> c = 0xAD \<or> c = 0xAF \<or> c = 0xB4 \<or> c = 0xB7 \<or> c = 0xB8)
   \<rparr>"

subsection \<open>Matchers that look at a prefix only\<close>

definition re_local :: "((str \<Rightarrow> bool) \<Rightarrow> str \<Rightarrow> bool) \<Rightarrow> bool" where
  \<comment> \<open>The matcher consumes a prefix, whose choice does not depend on what follows, and
      hands the rest to its continuation.\<close>
  "re_local m = (\<forall>k s. m k s = (\<exists>p r. s = p @ r \<and> m (\<lambda>x. x = []) p \<and> k r))"

section \<open>Properties\<close>

subsection \<open>Running the program on Latin-1 text\<close>

lemma latin1_class:
  "isspace ucd_latin1 c = ((0x09 \<le> c \<and> c \<le> 0x0D) \<or> (0x1C \<le> c \<and> c \<le> 0x20) \<or> c = 0x85 \<or> c = 0xA0)"
  "isdecimal ucd_latin1 c = (0x30 \<le> c \<and> c \<le> 0x39)"
  "isdigit ucd_latin1 c = ((0x30 \<le> c \<and> c \<le> 0x39) \<or> c = 0xB2 \<or> c = 0xB3 \<or> c = 0xB9)"
  "tolower_full ucd_latin1 c =
     (if (0x41 \<le> c \<and> c \<le> 0x5A) \<or> (0xC0 \<le> c \<and> c \<le> 0xD6) \<or> (0xD8 \<le> c \<and> c \<le> 0xDE)
      then [c + 0x20] else [c])"
  by (simp_all add: ucd_latin1_def)

lemma latin1_alnum:
  "isalnum ucd_latin1 c =
     ((0x30 \<le> c \<and> c \<le> 0x39) \<or> (0x41 \<le> c \<and> c \<le> 0x5A) \<or> (0x61 \<le> c \<and> c \<le> 0x7A)
      \<or> c = 0xAA \<or> c = 0xB2 \<or> c = 0xB3 \<or> c = 0xB5 \<or> c = 0xB9 \<or> c = 0xBA
      \<or> (0xBC \<le> c \<and> c \<le> 0xBE) \<or> (0xC0 \<le> c \<and> c \<le> 0xD6)
      \<or> (0xD8 \<le> c \<and> c \<le> 0xF6) \<or> (0xF8 \<le> c \<and> c \<le> 0xFF))"
  by (simp add: ucd_latin1_def)

lemmas normalize_eval = ustr_def normalize_line_def str_lower_def BIDI_MARKS_def
  translate_delete_def PUNCT_RE_sub_def re_word_def latin1_class latin1_alnum

lemmas count_eval = normalize_eval split_ws_def count_words_def count_line_def

lemmas ass_eval = ustr_def iter_ass_lines_def ass_step_def ass_text_def str_strip_def
  str_lstrip_def startswith_def split_sep_def index_of_def latin1_class

subsection \<open>The ASS parser on two documents\<close>

text \<open>
  The subscripts of the parser are always in range: a split is never empty, so \<open>parts[-1]\<close>
  exists, and a line that starts with \<open>Format:\<close> or \<open>Dialogue:\<close> splits at its first
  colon into two parts, so the subscript \<open>[1]\<close> exists.
\<close>

lemma split_acc_nonempty: "split_acc sep maxsplit cur s \<noteq> []"
  by (induction s arbitrary: maxsplit cur) simp_all

lemma split_acc_zero: "split_acc sep 0 cur s = [cur @ s]"
  by (induction s arbitrary: cur) simp_all

lemma split_acc_one: "sep \<in> set s \<Longrightarrow> length (split_acc sep 1 cur s) = 2"
  by (induction s arbitrary: cur) (auto simp: split_acc_zero)

lemma split_sep_nonempty: "split_sep s sep maxsplit \<noteq> []"
  by (simp add: split_sep_def split_acc_nonempty)

lemma split_sep_after_prefix:
  assumes "startswith line p" and "sep \<in> set p"
  shows "length (split_sep line sep 1) = 2"
proof -
  have "set (take (length p) line) \<subseteq> set line" by (rule set_take_subset)
  then have "sep \<in> set line" using assms by (auto simp: startswith_def)
  then show ?thesis by (simp add: split_sep_def split_acc_one)
qed


text \<open>
  C2. The header \<open>Format: Layer, Start, End, Text\<close> followed by the dialogue line
  \<open>Dialogue: 0,0:00:01.00,0:00:02.00,Hi, {\<bsol>pos(1,2)}there\<bsol>Nfriend\<close> gives the one text
  \<open>Hi, there friend\<close>: the override tag is gone, \<open>\<bsol>N\<close> has become a space and the comma
  inside the last field is kept. Counting that text gives \<open>hi\<close>, \<open>there\<close> and \<open>friend\<close>,
  once each. The backslash is the code point \<open>0x5C\<close>.
\<close>

theorem ass_scenario_hi_there_friend:
  "iter_ass_lines ucd_latin1
     [ustr ''Format: Layer, Start, End, Text'',
      ustr ''Dialogue: 0,0:00:01.00,0:00:02.00,Hi, {'' @ [0x5C] @ ustr ''pos(1,2)}there''
        @ [0x5C] @ ustr ''Nfriend'']
   = [ustr ''Hi, there friend'']
   \<and> count_words ucd_latin1 [ustr ''Hi, there friend'']
   = [(ustr ''hi'', 1), (ustr ''there'', 1), (ustr ''friend'', 1)]"
proof
  show "iter_ass_lines ucd_latin1
     [ustr ''Format: Layer, Start, End, Text'',
      ustr ''Dialogue: 0,0:00:01.00,0:00:02.00,Hi, {'' @ [0x5C] @ ustr ''pos(1,2)}there''
        @ [0x5C] @ ustr ''Nfriend'']
   = [ustr ''Hi, there friend'']"
    by (simp add: ass_eval)
  show "count_words ucd_latin1 [ustr ''Hi, there friend'']
   = [(ustr ''hi'', 1), (ustr ''there'', 1), (ustr ''friend'', 1)]"
    by (simp add: count_eval)
qed

text \<open>
  C1. A header replaces the field count, but it replaces the position of the text field only
  when it declares a field \<open>Text\<close>. After a header with \<open>Text\<close> first and a header without
  it, the dialogue line \<open>a,b,c\<close> is split by the second header into three parts and read at
  the position 0 that the first header left behind: the text is \<open>a\<close>. Under the second
  header alone the text is the last part, \<open>c\<close>.
\<close>

theorem ass_second_header_keeps_text_index:
  "iter_ass_lines ucd_latin1
     [ustr ''Format: Text, Start'', ustr ''Format: Layer, Start, End'', ustr ''Dialogue: a,b,c'']
   = [ustr ''a'']
   \<and> iter_ass_lines ucd_latin1
     [ustr ''Format: Layer, Start, End'', ustr ''Dialogue: a,b,c'']
   = [ustr ''c'']"
  by (simp add: ass_eval)

lemmas path_eval = ustr_def build_output_path_def default_name_def joinpath_def stem_def
  suffix_def name_def rfind_def index_of_def str_lower_def latin1_class

lemmas srt_eval = ustr_def iter_srt_lines_def srt_step_def str_strip_def str_isdigit_def
  TIME_CODE_RE_match_def TIME_CODE_RE_def re_clock_def re_digits_def re_char_def
  latin1_class numeral_2_eq_2 numeral_3_eq_3

subsection \<open>The normalizer: punctuation and case\<close>

lemma PUNCT_RE_sub_space:
  "PUNCT_RE_sub U (ustr '' '') s
     = map (\<lambda>c. if isalnum U c \<or> c = 0x5F \<or> isspace U c then c else 0x20) s"
  by (induction s) (simp_all add: PUNCT_RE_sub_def re_word_def ustr_def)

lemma lower_from_no_sigma:
  "0x3A3 \<notin> set s \<Longrightarrow> lower_from U seen s = concat (map (tolower_full U) s)"
  by (induction s arbitrary: seen) simp_all

lemma concat_map_singleton: "(\<And>x. x \<in> set xs \<Longrightarrow> f x = [x]) \<Longrightarrow> concat (map f xs) = xs"
  by (induction xs) simp_all

lemma normalize_line_fixed:
  assumes "\<And>c. c \<in> set line \<Longrightarrow> c \<notin> set BIDI_MARKS \<and> c \<noteq> 0x3A3 \<and> tolower_full U c = [c]
             \<and> (isalnum U c \<or> c = 0x5F \<or> isspace U c \<or> c = 0x20)"
  shows "normalize_line U line = line"
proof -
  have t: "translate_delete BIDI_MARKS line = line"
    unfolding translate_delete_def using assms by (simp add: filter_id_conv)
  have "0x3A3 \<notin> set line" using assms by blast
  then have l: "str_lower U line = concat (map (tolower_full U) line)"
    by (simp add: str_lower_def lower_from_no_sigma)
  have l2: "concat (map (tolower_full U) line) = line"
    using assms by (intro concat_map_singleton) blast
  have p: "PUNCT_RE_sub U (ustr '' '') line = line"
    unfolding PUNCT_RE_sub_def using assms
    by (intro concat_map_singleton) (auto simp: re_word_def ustr_def)
  show ?thesis by (simp add: normalize_line_def t l l2 p)
qed




text \<open>
  C9, as the claim states it, fails: the sharp s U+00DF is left as it is and is not folded
  to \<open>ss\<close>. The program calls \<open>lower\<close>, not \<open>casefold\<close>.
\<close>

theorem normalize_line_sharp_s_not_folded:
  "normalize_line ucd_latin1 [0xDF] = [0xDF] \<and> normalize_line ucd_latin1 [0xDF] \<noteq> ustr ''ss''"
  by (simp add: normalize_eval)

lemma lower_from_index:
  "lower_from U seen s =
     concat (map (\<lambda>i. if s ! i = 0x3A3
                        then [if final_sigma U (rev (take i s) @ seen) (drop (Suc i) s)
                              then 0x3C2 else 0x3C3]
                        else tolower_full U (s ! i)) [0..<length s])"
proof (induction s arbitrary: seen)
  case Nil
  then show ?case by simp
next
  case (Cons c cs)
  have upt: "[0..<length (c # cs)] = 0 # map Suc [0..<length cs]"
    by (simp add: upt_conv_Cons map_Suc_upt del: upt_Suc)
  show ?case
    unfolding upt by (simp add: Cons.IH [of "c # seen"] comp_def cong: if_cong)
qed

lemma str_lower_index:
  "str_lower U s =
     concat (map (\<lambda>i. if s ! i = 0x3A3
                        then [if final_sigma U (rev (take i s)) (drop (Suc i) s)
                              then 0x3C2 else 0x3C3]
                        else tolower_full U (s ! i)) [0..<length s])"
  using lower_from_index [of U "[]" s] by (simp add: str_lower_def cong: if_cong)

text \<open>
  C9, amended. After the bidi marks are removed the normalizer lowercases the text as
  \<open>str.lower\<close> does, character by character and without case folding: every character of
  the line is replaced by its full lowercase mapping, the capital sigma U+03A3 by the small
  sigma that its place in the line asks for, and then the punctuation is blanked. So
  characters that are their own lowercase, such as U+00DF, are left as they are: a line of
  such characters (no bidi marks and no punctuation among them) is returned unchanged.
\<close>

theorem normalize_line_lowercases:
  "normalize_line U line =
     (let s = translate_delete BIDI_MARKS line in
      PUNCT_RE_sub U (ustr '' '')
        (concat (map (\<lambda>i. if s ! i = 0x3A3
                           then [if final_sigma U (rev (take i s)) (drop (Suc i) s)
                                 then 0x3C2 else 0x3C3]
                           else tolower_full U (s ! i)) [0..<length s])))
   \<and> ((\<forall>c \<in> set line. c \<notin> set BIDI_MARKS \<and> c \<noteq> 0x3A3 \<and> tolower_full U c = [c]
           \<and> (isalnum U c \<or> c = 0x5F \<or> isspace U c)) \<longrightarrow>
      normalize_line U line = line)"
proof (intro conjI impI)
  show "normalize_line U line =
     (let s = translate_delete BIDI_MARKS line in
      PUNCT_RE_sub U (ustr '' '')
        (concat (map (\<lambda>i. if s ! i = 0x3A3
                           then [if final_sigma U (rev (take i s)) (drop (Suc i) s)
                                 then 0x3C2 else 0x3C3]
                           else tolower_full U (s ! i)) [0..<length s])))"
    unfolding normalize_line_def Let_def
    by (simp only: str_lower_index [of U "translate_delete BIDI_MARKS line"])
next
  assume "\<forall>c \<in> set line. c \<notin> set BIDI_MARKS \<and> c \<noteq> 0x3A3 \<and> tolower_full U c = [c]
           \<and> (isalnum U c \<or> c = 0x5F \<or> isspace U c)"
  then show "normalize_line U line = line"
    by (intro normalize_line_fixed) blast
qed

theorem normalize_line_lowercases_witness:
  "normalize_line ucd_latin1 (ustr ''STRA'' @ [0xDF] @ ustr ''E'') = ustr ''stra'' @ [0xDF] @ ustr ''e''
   \<and> normalize_line ucd_latin1 (ustr ''stra'' @ [0xDF] @ ustr ''e'') = ustr ''stra'' @ [0xDF] @ ustr ''e''"
  using normalize_line_lowercases [of ucd_latin1 "ustr ''STRA'' @ [0xDF] @ ustr ''E''"]
    normalize_line_lowercases [of ucd_latin1 "ustr ''stra'' @ [0xDF] @ ustr ''e''"]
  by (simp add: normalize_eval)

subsection \<open>The SRT parser: which lines are timing lines\<close>

lemma re_local_class: "re_local (re_class P)"
  unfolding re_local_def
proof (intro allI)
  fix k s
  show "re_class P k s = (\<exists>p r. s = p @ r \<and> re_class P (\<lambda>x. x = []) p \<and> k r)"
  proof (cases s)
    case Nil
    then show ?thesis by simp
  next
    case (Cons c cs)
    have *: "re_class P (\<lambda>x. x = []) p = (\<exists>d. p = [d] \<and> P d)" for p
      by (cases p) auto
    have "(\<exists>p r. c # cs = p @ r \<and> (\<exists>d. p = [d] \<and> P d) \<and> k r) = (P c \<and> k cs)"
    proof
      assume "P c \<and> k cs"
      then have "c # cs = [c] @ cs \<and> (\<exists>d. [c] = [d] \<and> P d) \<and> k cs" by simp
      then show "\<exists>p r. c # cs = p @ r \<and> (\<exists>d. p = [d] \<and> P d) \<and> k r" by blast
    qed auto
    then show ?thesis using Cons * by simp
  qed
qed

lemma re_plus_nil: "re_plus P (\<lambda>x. x = []) p = (p \<noteq> [] \<and> list_all P p)"
  by (induction p) auto

lemma re_plus_split:
  "re_plus P k s = (\<exists>p r. s = p @ r \<and> p \<noteq> [] \<and> list_all P p \<and> k r)"
proof (induction s)
  case Nil
  then show ?case by simp
next
  case (Cons c cs)
  show ?case
  proof
    assume "re_plus P k (c # cs)"
    then have pc: "P c" and alt: "re_plus P k cs \<or> k cs" by auto
    from alt show "\<exists>p r. c # cs = p @ r \<and> p \<noteq> [] \<and> list_all P p \<and> k r"
    proof
      assume "re_plus P k cs"
      then obtain p r where "cs = p @ r" "list_all P p" "k r" using Cons.IH by auto
      then have "c # cs = (c # p) @ r \<and> c # p \<noteq> [] \<and> list_all P (c # p) \<and> k r"
        using pc by simp
      then show ?thesis by blast
    next
      assume "k cs"
      then have "c # cs = [c] @ cs \<and> [c] \<noteq> [] \<and> list_all P [c] \<and> k cs" using pc by simp
      then show ?thesis by blast
    qed
  next
    assume "\<exists>p r. c # cs = p @ r \<and> p \<noteq> [] \<and> list_all P p \<and> k r"
    then obtain p r where *: "c # cs = p @ r" "p \<noteq> []" "list_all P p" "k r" by blast
    then obtain p' where p: "p = c # p'" by (cases p) auto
    with * have cs: "cs = p' @ r" and pc: "P c" and all: "list_all P p'" by auto
    show "re_plus P k (c # cs)"
    proof (cases "p' = []")
      case True
      then show ?thesis using cs pc *(4) by simp
    next
      case False
      then have "re_plus P k cs" using Cons.IH cs all *(4) by blast
      then show ?thesis using pc by simp
    qed
  qed
qed

lemma re_local_plus: "re_local (re_plus P)"
  unfolding re_local_def by (simp add: re_plus_split [of P _ _] re_plus_nil)

lemma re_local_comp:
  assumes "re_local m1" "re_local m2"
  shows "re_local (m1 \<circ> m2)"
  unfolding re_local_def
proof (intro allI)
  fix k s
  have 1: "m1 k' s' = (\<exists>p r. s' = p @ r \<and> m1 (\<lambda>x. x = []) p \<and> k' r)" for k' s'
    using assms(1) unfolding re_local_def by blast
  have 2: "m2 k' s' = (\<exists>p r. s' = p @ r \<and> m2 (\<lambda>x. x = []) p \<and> k' r)" for k' s'
    using assms(2) unfolding re_local_def by blast
  have "(m1 \<circ> m2) k s = (\<exists>a r. s = a @ r \<and> m1 (\<lambda>x. x = []) a \<and> m2 k r)"
    using 1 [of "m2 k" s] by simp
  also have "\<dots> = (\<exists>a b r. s = a @ b @ r \<and> m1 (\<lambda>x. x = []) a \<and> m2 (\<lambda>x. x = []) b \<and> k r)"
    using 2 [of k] by blast
  also have "\<dots> = (\<exists>p r. s = p @ r \<and> (\<exists>a b. p = a @ b \<and> m1 (\<lambda>x. x = []) a \<and> m2 (\<lambda>x. x = []) b) \<and> k r)"
    by (metis append.assoc)
  also have "\<dots> = (\<exists>p r. s = p @ r \<and> (m1 \<circ> m2) (\<lambda>x. x = []) p \<and> k r)"
    using 1 [of "m2 (\<lambda>x. x = [])"] by simp
  finally show "(m1 \<circ> m2) k s = (\<exists>p r. s = p @ r \<and> (m1 \<circ> m2) (\<lambda>x. x = []) p \<and> k r)" .
qed

lemma re_local_id: "re_local id"
  by (simp add: re_local_def)

lemma re_local_funpow: "re_local m \<Longrightarrow> re_local (m ^^ n)"
  by (induction n) (simp_all add: re_local_id re_local_comp)

lemma re_local_clock: "re_local (re_clock U)"
  unfolding re_clock_def re_digits_def re_char_def
  by (intro re_local_comp re_local_funpow re_local_class)

lemma re_local_TIME_CODE_RE: "re_local (TIME_CODE_RE U)"
  unfolding TIME_CODE_RE_def re_char_def
  by (intro re_local_comp re_local_clock re_local_plus re_local_class)

lemma foldl_srt_step:
  "foldl (srt_step U) acc handle =
     acc @ filter (\<lambda>line. line \<noteq> [] \<and> \<not> str_isdigit U line \<and> \<not> TIME_CODE_RE_match U line)
             (map (str_strip U) handle)"
  by (induction handle arbitrary: acc) (simp_all add: srt_step_def Let_def)

text \<open>
  C4, as the claim states it, fails: a timing line followed by more text on the same line
  is dropped, not emitted.
\<close>

theorem iter_srt_lines_drops_timecode_with_trailing_text:
  "iter_srt_lines ucd_latin1 [ustr ''00:00:01,000 --> 00:00:02,000 X1:100''] = []"
  by (simp add: srt_eval)

text \<open>
  C4, amended. The parser strips the whitespace around every line and emits, in order, the
  stripped lines that are not empty, not made of digits only and not timing lines; and a
  line is a timing line exactly when some prefix of it matches the pattern
  \<open>HH:MM:SS,mmm --> HH:MM:SS,mmm\<close> in full, whatever follows that prefix.
\<close>

theorem iter_srt_lines_drops_timecode_prefix:
  "iter_srt_lines U handle =
     filter (\<lambda>line. line \<noteq> [] \<and> \<not> str_isdigit U line \<and> \<not> TIME_CODE_RE_match U line)
       (map (str_strip U) handle)
   \<and> TIME_CODE_RE_match U line
       = (\<exists>p rest. line = p @ rest \<and> TIME_CODE_RE_fullmatch U p)"
proof
  show "iter_srt_lines U handle =
     filter (\<lambda>line. line \<noteq> [] \<and> \<not> str_isdigit U line \<and> \<not> TIME_CODE_RE_match U line)
       (map (str_strip U) handle)"
    by (simp add: iter_srt_lines_def foldl_srt_step)
  show "TIME_CODE_RE_match U line
       = (\<exists>p rest. line = p @ rest \<and> TIME_CODE_RE_fullmatch U p)"
    using re_local_TIME_CODE_RE [of U]
    unfolding re_local_def TIME_CODE_RE_match_def TIME_CODE_RE_fullmatch_def by blast
qed

theorem iter_srt_lines_drops_timecode_prefix_witness:
  "iter_srt_lines ucd_latin1
     [ustr ''1'', ustr ''00:00:01,000 --> 00:00:02,000'', ustr ''Hello world!'', [],
      ustr ''Hello again.'']
   = [ustr ''Hello world!'', ustr ''Hello again.'']"
  using iter_srt_lines_drops_timecode_prefix
    [of ucd_latin1 "[ustr ''1'', ustr ''00:00:01,000 --> 00:00:02,000'', ustr ''Hello world!'', [],
      ustr ''Hello again.'']"]
  by (simp add: srt_eval)

subsection \<open>The output path\<close>

text \<open>
  C10. A destination that is given, does not exist and whose suffix is not \<open>.csv\<close> in any
  letter case is taken for a directory: the result is the destination joined with the
  input's stem followed by \<open>_word_frequency.csv\<close>, and it is not the destination itself.
\<close>

theorem build_output_path_missing_non_csv:
  assumes "\<not> exists fs out" and "str_lower U (suffix out) \<noteq> ustr ''.csv''"
  shows "build_output_path U fs input_path (Some out)
           = Inr (joinpath out (stem input_path @ ustr ''_word_frequency.csv''))
         \<and> build_output_path U fs input_path (Some out) \<noteq> Inr out"
proof -
  have "joinpath out nm \<noteq> out" for nm
  proof
    assume "joinpath out nm = out"
    then have "parts (joinpath out nm) = parts out" by simp
    then show False by (simp add: joinpath_def)
  qed
  then show ?thesis using assms by (simp add: build_output_path_def default_name_def)
qed

theorem build_output_path_missing_non_csv_witness:
  "build_output_path ucd_latin1 \<lparr>exists = (\<lambda>p. False), is_dir = (\<lambda>p. False)\<rparr>
     \<lparr>anchor = ustr ''/'', parts = [ustr ''tmp'', ustr ''movie.en.srt'']\<rparr>
     (Some \<lparr>anchor = [], parts = [ustr ''out.txt'']\<rparr>)
   = Inr \<lparr>anchor = [], parts = [ustr ''out.txt'', ustr ''movie.en_word_frequency.csv'']\<rparr>"
proof -
  have a: "\<not> exists \<lparr>exists = (\<lambda>p. False), is_dir = (\<lambda>p. False)\<rparr>
             \<lparr>anchor = [], parts = [ustr ''out.txt'']\<rparr>"
    by simp
  have b: "str_lower ucd_latin1 (suffix \<lparr>anchor = [], parts = [ustr ''out.txt'']\<rparr>) \<noteq> ustr ''.csv''"
    by (simp add: path_eval)
  show ?thesis
    using build_output_path_missing_non_csv
      [OF a b, of "\<lparr>anchor = ustr ''/'', parts = [ustr ''tmp'', ustr ''movie.en.srt'']\<rparr>"]
    by (simp add: path_eval)
qed

subsection \<open>Counting\<close>

lemma sum_counter_incr: "sum_list (map snd (counter_incr counts w)) = sum_list (map snd counts) + 1"
  by (induction counts w rule: counter_incr.induct) simp_all

lemma sum_foldl_incr:
  "sum_list (map snd (foldl counter_incr counts ws)) = sum_list (map snd counts) + int (length ws)"
  by (induction ws arbitrary: counts) (simp_all add: sum_counter_incr)

lemma count_words_foldl:
  "foldl (count_line U) counts ls
     = foldl counter_incr counts (concat (map (\<lambda>l. split_ws U (normalize_line U l)) ls))"
  by (induction ls arbitrary: counts) (simp_all add: count_line_def)

lemma sum_foldl_count_line:
  "sum_list (map snd (foldl (count_line U) counts ls))
     = sum_list (map snd counts) + (\<Sum>l\<leftarrow>ls. int (length (split_ws U (normalize_line U l))))"
  by (induction ls arbitrary: counts) (simp_all add: count_line_def sum_foldl_incr)

text \<open>
  C6. The counts of the table add up to the number of tokens: the sum, over the dialogue
  lines, of the number of pieces that splitting the normalized line on whitespace gives.
\<close>

theorem count_words_sum:
  "sum_list (map snd (count_words U subtitle_lines))
     = (\<Sum>l\<leftarrow>subtitle_lines. int (length (split_ws U (normalize_line U l))))"
  by (simp add: count_words_def sum_foldl_count_line)

lemma map_of_counter_incr:
  "map_of (counter_incr counts w) = (map_of counts)(w \<mapsto> counter_get counts w + 1)"
  by (induction counts w rule: counter_incr.induct) (auto simp: counter_get_def)

lemma counter_get_incr:
  "counter_get (counter_incr counts w) w' = counter_get counts w' + (if w' = w then 1 else 0)"
  by (simp add: counter_get_def map_of_counter_incr)

lemma map_of_foldl_incr:
  "map_of (foldl counter_incr counts ws) w
     = (if w \<in> set ws then Some (counter_get counts w + int (count_list ws w))
        else map_of counts w)"
proof (induction ws arbitrary: counts)
  case Nil
  then show ?case by simp
next
  case (Cons a ws)
  show ?case
    by (simp add: Cons.IH counter_get_incr map_of_counter_incr counter_get_def)
qed

lemma map_of_count_words:
  "map_of (count_words U ls) w =
     (let tokens = concat (map (\<lambda>l. split_ws U (normalize_line U l)) ls)
      in if w \<in> set tokens then Some (int (count_list tokens w)) else None)"
  by (simp add: count_words_def count_words_foldl map_of_foldl_incr counter_get_def)

lemma mset_tokens:
  "mset (concat (map f xs)) = (\<Sum>x\<in>#mset xs. mset (f x))"
  by (induction xs) simp_all

text \<open>
  C7. Counting does not depend on the order of the dialogue lines: two sequences of lines
  that are permutations of each other (they hold the same lines the same number of times)
  give tables that are equal as mappings from words to counts.
\<close>

theorem count_words_order_independent:
  assumes "mset xs = mset ys"
  shows "map_of (count_words U xs) = map_of (count_words U ys)"
proof
  fix w
  let ?f = "\<lambda>l. split_ws U (normalize_line U l)"
  have m: "mset (concat (map ?f xs)) = mset (concat (map ?f ys))"
    by (simp add: mset_tokens assms)
  then have s: "set (concat (map ?f xs)) = set (concat (map ?f ys))"
    by (rule mset_eq_setD)
  have "count (mset (concat (map ?f xs))) w = count (mset (concat (map ?f ys))) w"
    using m by simp
  then have c: "count_list (concat (map ?f xs)) w = count_list (concat (map ?f ys)) w"
    by (simp only: count_mset)
  show "map_of (count_words U xs) w = map_of (count_words U ys) w"
    unfolding map_of_count_words Let_def using s c by simp
qed

theorem count_words_order_independent_witness:
  "map_of (count_words ucd_latin1 [ustr ''Hello again.'', ustr ''Hello world!''])
     = map_of (count_words ucd_latin1 [ustr ''Hello world!'', ustr ''Hello again.''])"
proof -
  have "mset [ustr ''Hello again.'', ustr ''Hello world!'']
          = mset [ustr ''Hello world!'', ustr ''Hello again.'']"
    by (simp add: add.commute)
  then show ?thesis by (rule count_words_order_independent)
qed

lemma fst_set_counter_incr: "fst ` set (counter_incr counts w) = insert w (fst ` set counts)"
  by (induction counts w rule: counter_incr.induct) auto

lemma distinct_counter_incr:
  "distinct (map fst counts) \<Longrightarrow> distinct (map fst (counter_incr counts w))"
  by (induction counts w rule: counter_incr.induct) (auto simp: fst_set_counter_incr)

lemma distinct_foldl_incr:
  "distinct (map fst counts) \<Longrightarrow> distinct (map fst (foldl counter_incr counts ws))"
  by (induction ws arbitrary: counts) (simp_all add: distinct_counter_incr)

lemma distinct_count_words: "distinct (map fst (count_words U ls))"
  by (simp add: count_words_def count_words_foldl distinct_foldl_incr)

subsection \<open>Export\<close>

lemma sorted_items_sorted:
  "sorted_wrt (\<lambda>a b. snd b < snd a \<or> (snd a = snd b \<and> fst a \<le> fst b)) (sorted_items counts)"
proof -
  have "sorted (map (\<lambda>item. (- snd item, fst item)) (sorted_items counts))"
    unfolding sorted_items_def by (rule sorted_sort_key)
  then have "sorted_wrt (\<lambda>a b. (- snd a, fst a) \<le> (- snd b, fst b)) (sorted_items counts)"
    by (simp add: sorted_wrt_map)
  then show ?thesis
    by (rule sorted_wrt_mono_rel [rotated]) (auto simp: less_eq_prod_def)
qed

lemma sorted_items_mset: "mset (sorted_items counts) = mset counts"
  by (simp add: sorted_items_def)

lemma sort_key_inj_unique:
  assumes "inj f" "distinct xs" "distinct ys" "set xs = set ys"
  shows "sort_key f xs = sort_key f ys"
proof -
  have "map f (sort_key f xs) = map f (sort_key f ys)"
  proof (rule sorted_distinct_set_unique)
    show "sorted (map f (sort_key f xs))" "sorted (map f (sort_key f ys))"
      by (rule sorted_sort_key)+
    show "distinct (map f (sort_key f xs))" "distinct (map f (sort_key f ys))"
      using assms by (simp_all add: distinct_map inj_on_subset [OF assms(1)])
    show "set (map f (sort_key f xs)) = set (map f (sort_key f ys))"
      using assms(4) by simp
  qed
  then show ?thesis using assms(1) by (simp add: inj_map_eq_map)
qed

lemma sorted_items_same_table:
  assumes "distinct (map fst c1)" "distinct (map fst c2)" "map_of c1 = map_of c2"
  shows "sorted_items c1 = sorted_items c2"
proof -
  have "inj (\<lambda>item :: str \<times> int. (- snd item, fst item))"
    by (auto simp: inj_on_def prod_eq_iff)
  moreover have "distinct c1" "distinct c2" using assms(1,2) by (auto simp: distinct_map)
  moreover have "set c1 = set c2" using assms by (simp add: map_of_inject_set)
  ultimately show ?thesis unfolding sorted_items_def by (rule sort_key_inj_unique)
qed

lemmas csv_eval = ustr_def write_csv_def sorted_items_def

text \<open>
  C5. The exported rows are sorted by falling count and, among equal counts, by rising
  word, words being compared lexicographically by code points (the order of lists of
  naturals); they are the entries of the table, each once. The order of the rows is
  determined by the table alone: two tables that are equal as mappings, whatever the order
  in which their words were inserted, are exported as the same sequence of rows.
\<close>

theorem write_csv_sorted_deterministic:
  "sorted_wrt (\<lambda>a b. snd b < snd a \<or> (snd a = snd b \<and> fst a \<le> fst b)) (write_csv counts)
   \<and> mset (write_csv counts) = mset counts
   \<and> (distinct (map fst counts) \<and> distinct (map fst counts') \<and> map_of counts = map_of counts'
        \<longrightarrow> write_csv counts = write_csv counts')"
  by (simp add: write_csv_def sorted_items_sorted sorted_items_mset sorted_items_same_table)

theorem write_csv_sorted_deterministic_witness:
  "write_csv [(ustr ''hello'', 2), (ustr ''world'', 1), (ustr ''again'', 1)]
     = [(ustr ''hello'', 2), (ustr ''again'', 1), (ustr ''world'', 1)]
   \<and> write_csv [(ustr ''again'', 1), (ustr ''world'', 1), (ustr ''hello'', 2)]
     = [(ustr ''hello'', 2), (ustr ''again'', 1), (ustr ''world'', 1)]"
  using write_csv_sorted_deterministic
    [of "[(ustr ''hello'', 2), (ustr ''world'', 1), (ustr ''again'', 1)]"
        "[(ustr ''again'', 1), (ustr ''world'', 1), (ustr ''hello'', 2)]"]
  by (simp add: csv_eval)

subsection \<open>The normalizer: idempotence\<close>

lemma set_lower_from:
  "d \<in> set (lower_from U seen s) \<Longrightarrow> d = 0x3C2 \<or> d = 0x3C3 \<or> (\<exists>c. d \<in> set (tolower_full U c))"
  by (induction s arbitrary: seen) (auto split: if_splits)

lemma set_normalize_line:
  assumes "d \<in> set (normalize_line U line)"
  shows "d = 0x20 \<or> ((isalnum U d \<or> d = 0x5F \<or> isspace U d)
           \<and> (d = 0x3C2 \<or> d = 0x3C3 \<or> (\<exists>c. d \<in> set (tolower_full U c))))"
proof -
  from assms obtain c where c: "c \<in> set (str_lower U (translate_delete BIDI_MARKS line))"
    and d: "d = (if isalnum U c \<or> c = 0x5F \<or> isspace U c then c else 0x20)"
    by (auto simp: normalize_line_def PUNCT_RE_sub_space)
  show ?thesis
  proof (cases "isalnum U c \<or> c = 0x5F \<or> isspace U c")
    case True
    then have "d = c" using d by simp
    then show ?thesis using True c set_lower_from [of c U "[]"] by (simp add: str_lower_def)
  next
    case False
    then show ?thesis using d by simp
  qed
qed

lemma latin1_lower_idem:
  "\<forall>c. \<forall>d \<in> set (tolower_full ucd_latin1 c).
     isalnum ucd_latin1 d \<or> d = 0x5F \<or> isspace ucd_latin1 d
       \<longrightarrow> d \<noteq> 0x3A3 \<and> tolower_full ucd_latin1 d = [d]"
  by (auto simp: latin1_class latin1_alnum split: if_splits)

lemma latin1_bidi:
  "\<forall>b \<in> set BIDI_MARKS. \<not> isalnum ucd_latin1 b \<and> \<not> isspace ucd_latin1 b"
  by (simp add: BIDI_MARKS_def latin1_class latin1_alnum)

text \<open>
  C8. Normalizing a normalized line changes nothing. The proof needs three facts of the
  character tables, all of which hold of the Unicode character database: lowercasing is
  idempotent on the alphanumeric, underscore and whitespace characters it produces, and
  never produces a capital sigma; the space and the two small sigmas are their own
  lowercase; and no bidi mark of the table is alphanumeric or whitespace.
\<close>

theorem normalize_line_idempotent:
  assumes lower_idem: "\<forall>c. \<forall>d \<in> set (tolower_full U c).
             isalnum U d \<or> d = 0x5F \<or> isspace U d \<longrightarrow> d \<noteq> 0x3A3 \<and> tolower_full U d = [d]"
    and fixed: "tolower_full U 0x20 = [0x20]" "tolower_full U 0x3C2 = [0x3C2]"
               "tolower_full U 0x3C3 = [0x3C3]"
    and bidi: "\<forall>b \<in> set BIDI_MARKS. \<not> isalnum U b \<and> \<not> isspace U b"
  shows "normalize_line U (normalize_line U line) = normalize_line U line"
proof (rule normalize_line_fixed)
  fix d
  assume "d \<in> set (normalize_line U line)"
  then consider (space) "d = 0x20"
    | (sigma) "d = 0x3C2 \<or> d = 0x3C3" "isalnum U d \<or> d = 0x5F \<or> isspace U d"
    | (lowered) c where "d \<in> set (tolower_full U c)" "isalnum U d \<or> d = 0x5F \<or> isspace U d"
    using set_normalize_line by blast
  then show "d \<notin> set BIDI_MARKS \<and> d \<noteq> 0x3A3 \<and> tolower_full U d = [d]
       \<and> (isalnum U d \<or> d = 0x5F \<or> isspace U d \<or> d = 0x20)"
  proof cases
    case space
    then show ?thesis using fixed(1) by (simp add: BIDI_MARKS_def)
  next
    case sigma
    then show ?thesis using fixed(2,3) by (auto simp: BIDI_MARKS_def)
  next
    case lowered
    have "d \<notin> set BIDI_MARKS"
    proof
      assume b: "d \<in> set BIDI_MARKS"
      then have "\<not> isalnum U d \<and> \<not> isspace U d" using bidi by blast
      then have "d = 0x5F" using lowered(2) by blast
      then show False using b by (simp add: BIDI_MARKS_def)
    qed
    then show ?thesis using lowered lower_idem by blast
  qed
qed

theorem normalize_line_idempotent_witness:
  "normalize_line ucd_latin1 (normalize_line ucd_latin1 (ustr ''Don_t STOP, Caf'' @ [0xC9, 0x200E]))
     = normalize_line ucd_latin1 (ustr ''Don_t STOP, Caf'' @ [0xC9, 0x200E])
   \<and> normalize_line ucd_latin1 (ustr ''Don_t STOP, Caf'' @ [0xC9, 0x200E])
     = ustr ''don_t stop  caf'' @ [0xE9]"
proof
  show "normalize_line ucd_latin1 (normalize_line ucd_latin1 (ustr ''Don_t STOP, Caf'' @ [0xC9, 0x200E]))
     = normalize_line ucd_latin1 (ustr ''Don_t STOP, Caf'' @ [0xC9, 0x200E])"
    by (rule normalize_line_idempotent [OF latin1_lower_idem _ _ _ latin1_bidi])
      (simp_all add: latin1_class)
  show "normalize_line ucd_latin1 (ustr ''Don_t STOP, Caf'' @ [0xC9, 0x200E])
     = ustr ''don_t stop  caf'' @ [0xE9]"
    by (simp add: normalize_eval)
qed

end
